theory Spec2Isabelle
  imports Main
begin

section \<open>Python strings\<close>

text \<open>
  The script \<^verbatim>\<open>scripts/apply_breathable_spacing.py\<close> works on Python \<^verbatim>\<open>str\<close> values.
  A \<^verbatim>\<open>str\<close> is modelled as a \<^typ>\<open>string\<close>; one \<^typ>\<open>char\<close> stands for one code point
  below 256, so the model covers texts whose code points all lie in that range.
  A line is a \<^typ>\<open>string\<close> that still carries its terminator, a line sequence is a
  \<^typ>\<open>string list\<close>.
\<close>

text \<open>\<^verbatim>\<open>str.isspace\<close> on one code point; the same set is what \<^verbatim>\<open>str.strip()\<close> removes and
  what \<^verbatim>\<open>\s\<close> matches in a \<^verbatim>\<open>str\<close> pattern.\<close>

definition isspace :: "char \<Rightarrow> bool" where
  "isspace c =
     (c = CHR 0x09 \<or> c = CHR 0x0A \<or> c = CHR 0x0B \<or> c = CHR 0x0C \<or> c = CHR 0x0D \<or>
      c = CHR 0x1C \<or> c = CHR 0x1D \<or> c = CHR 0x1E \<or> c = CHR 0x1F \<or> c = CHR 0x20 \<or>
      c = CHR 0x85 \<or> c = CHR 0xA0)"

definition strip :: "string \<Rightarrow> string" where
  "strip s = rev (dropWhile isspace (rev (dropWhile isspace s)))"

definition startswith :: "string \<Rightarrow> string \<Rightarrow> bool" where
  "startswith s p = (take (length p) s = p)"

definition endswith :: "string \<Rightarrow> string \<Rightarrow> bool" where
  "endswith s p = (length p \<le> length s \<and> drop (length s - length p) s = p)"

text \<open>\<^verbatim>\<open>s.startswith((p1, p2, ...))\<close> with a tuple of prefixes.\<close>

fun startswith_any :: "string \<Rightarrow> string list \<Rightarrow> bool" where
  "startswith_any s [] = False"
| "startswith_any s (p # ps) = (startswith s p \<or> startswith_any s ps)"

text \<open>\<^verbatim>\<open>k in s\<close> on strings: \<open>k\<close> occurs in \<open>s\<close> at some position.\<close>

fun str_in :: "string \<Rightarrow> string \<Rightarrow> bool" where
  "str_in k [] = (k = [])"
| "str_in k (c # cs) = (startswith (c # cs) k \<or> str_in k cs)"

text \<open>\<^verbatim>\<open>s.count(c)\<close> for a one-character argument.\<close>

definition count_char :: "string \<Rightarrow> char \<Rightarrow> int" where
  "count_char s c = int (length (filter (\<lambda>x. x = c) s))"

text \<open>The line \<^verbatim>\<open>"\n"\<close> that every pass appends.\<close>

definition nl :: string where
  "nl = [CHR 0x0A]"

text \<open>\<^verbatim>\<open>str.splitlines(keepends=True)\<close>: a line ends after a line boundary
  (\<^verbatim>\<open>\n \r \v \f \x1c \x1d \x1e \x85\<close>; \<^verbatim>\<open>\r\n\<close> counts as one), the terminator stays on the line,
  and a last line without terminator is kept when it is not empty.\<close>

definition is_linebreak :: "char \<Rightarrow> bool" where
  "is_linebreak c =
     (c = CHR 0x0A \<or> c = CHR 0x0B \<or> c = CHR 0x0C \<or> c = CHR 0x0D \<or>
      c = CHR 0x1C \<or> c = CHR 0x1D \<or> c = CHR 0x1E \<or> c = CHR 0x85)"

fun splitlines_from :: "string \<Rightarrow> string \<Rightarrow> string list" where
  "splitlines_from cur [] = (if cur = [] then [] else [cur])"
| "splitlines_from cur [c] = [cur @ [c]]"
| "splitlines_from cur (c # d # cs) =
     (if c = CHR 0x0D \<and> d = CHR 0x0A then (cur @ [c, d]) # splitlines_from [] cs
      else if is_linebreak c then (cur @ [c]) # splitlines_from [] (d # cs)
      else splitlines_from (cur @ [c]) (d # cs))"

definition splitlines :: "string \<Rightarrow> string list" where
  "splitlines txt = splitlines_from [] txt"

section \<open>The regular expressions of the script\<close>

text \<open>\<^verbatim>\<open>\w\<close> in a \<^verbatim>\<open>str\<close> pattern: alphanumeric code points and the underscore.\<close>

definition isword :: "char \<Rightarrow> bool" where
  "isword c =
     (let n = (of_char c :: nat) in
      (48 \<le> n \<and> n \<le> 57) \<or> (65 \<le> n \<and> n \<le> 90) \<or> n = 95 \<or> (97 \<le> n \<and> n \<le> 122) \<or>
      n = 170 \<or> n = 178 \<or> n = 179 \<or> n = 181 \<or> n = 185 \<or> n = 186 \<or>
      n = 188 \<or> n = 189 \<or> n = 190 \<or>
      (192 \<le> n \<and> n \<le> 214) \<or> (216 \<le> n \<and> n \<le> 246) \<or> 248 \<le> n)"

text \<open>The fragment of regular expressions the script uses: a literal, \<^verbatim>\<open>\s+\<close>,
  \<^verbatim>\<open>(?:r)?\<close>, \<^verbatim>\<open>r|s\<close>, concatenation and \<^verbatim>\<open>\b\<close>.\<close>

datatype regex =
    Lit string
  | Spaces
  | Opt regex
  | Alt regex regex
  | Seq regex regex
  | WordBoundary

text \<open>A matcher state is the character before the current position (none at the start
  of the line) and the rest of the line. \<open>rmatch\<close> lists every state a backtracking
  matcher can reach after the expression, in the order it tries them.\<close>

fun nonempty_prefix_rests :: "char option \<Rightarrow> string \<Rightarrow> (char option \<times> string) list" where
  "nonempty_prefix_rests prev [] = []"
| "nonempty_prefix_rests prev (c # cs) =
     (if isspace c then nonempty_prefix_rests (Some c) cs @ [(Some c, cs)] else [])"

definition at_word_boundary :: "char option \<Rightarrow> string \<Rightarrow> bool" where
  "at_word_boundary prev s =
     ((case prev of None \<Rightarrow> False | Some c \<Rightarrow> isword c) \<noteq>
      (case s of [] \<Rightarrow> False | c # _ \<Rightarrow> isword c))"

fun rmatch :: "regex \<Rightarrow> char option \<times> string \<Rightarrow> (char option \<times> string) list" where
  "rmatch (Lit p) (prev, s) =
     (if startswith s p then [(if p = [] then prev else Some (last p), drop (length p) s)]
      else [])"
| "rmatch Spaces (prev, s) = nonempty_prefix_rests prev s"
| "rmatch (Opt r) st = rmatch r st @ [st]"
| "rmatch (Alt r1 r2) st = rmatch r1 st @ rmatch r2 st"
| "rmatch (Seq r1 r2) st = concat (map (rmatch r2) (rmatch r1 st))"
| "rmatch WordBoundary (prev, s) = (if at_word_boundary prev s then [(prev, s)] else [])"

text \<open>\<^verbatim>\<open>pattern.match(line)\<close> as a truth value: some way of matching at the start
  of the line exists.\<close>

definition re_match :: "regex \<Rightarrow> string \<Rightarrow> bool" where
  "re_match r line = (rmatch r (None, line) \<noteq> [])"

definition opt_pub :: regex where
  "opt_pub = Opt (Seq (Lit ''pub'') Spaces)"

text \<open>\<^verbatim>\<open>^(?:pub\s+)?(?:struct|enum|trait|impl|fn)\b\<close>\<close>

definition item_start_re :: regex where
  "item_start_re =
     Seq opt_pub
       (Seq (Alt (Lit ''struct'') (Alt (Lit ''enum'') (Alt (Lit ''trait'')
               (Alt (Lit ''impl'') (Lit ''fn'')))))
            WordBoundary)"

text \<open>\<^verbatim>\<open>^(?:pub\s+)?(?:use|mod)\b\<close>\<close>

definition use_mod_re :: regex where
  "use_mod_re = Seq opt_pub (Seq (Alt (Lit ''use'') (Lit ''mod'')) WordBoundary)"

text \<open>\<^verbatim>\<open>^(?:pub\s+)?use\s+\<close> and \<^verbatim>\<open>^(?:pub\s+)?mod\s+\<close>\<close>

definition use_re :: regex where
  "use_re = Seq opt_pub (Seq (Lit ''use'') Spaces)"

definition mod_re :: regex where
  "mod_re = Seq opt_pub (Seq (Lit ''mod'') Spaces)"

section \<open>The five passes\<close>

subsection \<open>\<^verbatim>\<open>ensure_single_blank_between_items\<close>\<close>

text \<open>The loop appends the current line and looks at the next one; \<open>out\<close> is the list
  built so far.\<close>

fun ensure_loop :: "string list \<Rightarrow> string list \<Rightarrow> string list" where
  "ensure_loop out [] = out"
| "ensure_loop out [line] = out @ [line]"
| "ensure_loop out (line # next_line # rest) =
     (if re_match item_start_re next_line \<or> re_match use_mod_re next_line then
        if strip line = [] then ensure_loop (out @ [line]) (next_line # rest)
        else if startswith_any (strip line) [''#['', ''//!'', ''///'']
          then ensure_loop (out @ [line]) (next_line # rest)
        else ensure_loop (out @ [line] @ [nl]) (next_line # rest)
      else ensure_loop (out @ [line]) (next_line # rest))"

definition ensure_single_blank_between_items :: "string list \<Rightarrow> string list" where
  "ensure_single_blank_between_items lines = ensure_loop [] lines"

subsection \<open>\<^verbatim>\<open>group_import_blocks\<close>\<close>

definition is_use_or_mod :: "string \<Rightarrow> bool" where
  "is_use_or_mod line = (re_match use_re line \<or> re_match mod_re line)"

text \<open>\<^verbatim>\<open>if out and out[-1].strip() != "": out.append("\n")\<close>, the guard of three of
  the passes.\<close>

definition append_nl_unless_blank :: "string list \<Rightarrow> string list" where
  "append_nl_unless_blank out =
     (if out \<noteq> [] \<and> strip (last out) \<noteq> [] then out @ [nl] else out)"

text \<open>The outer \<^verbatim>\<open>while i < n\<close>; the inner \<^verbatim>\<open>while\<close> copies the longest run of
  use/mod lines that starts at the current line.\<close>

function group_loop :: "string list \<Rightarrow> string list \<Rightarrow> string list" where
  "group_loop out [] = out"
| "group_loop out (line # rest) =
     (if is_use_or_mod line then
        (let out1 = append_nl_unless_blank out;
             out2 = out1 @ takeWhile is_use_or_mod (line # rest);
             rest2 = dropWhile is_use_or_mod (line # rest);
             out3 = (if rest2 \<noteq> [] \<and> strip (hd rest2) \<noteq> [] then out2 @ [nl] else out2)
         in group_loop out3 rest2)
      else group_loop (out @ [line]) rest)"
  by pat_completeness auto
termination
  by (relation "measure (\<lambda>(out, ls). length ls)")
     (auto simp: le_imp_less_Suc length_dropWhile_le)

definition group_import_blocks :: "string list \<Rightarrow> string list" where
  "group_import_blocks lines = group_loop [] lines"

subsection \<open>\<^verbatim>\<open>plugin_chain_spacing\<close>\<close>

definition is_resource_line :: "string \<Rightarrow> bool" where
  "is_resource_line s =
     (str_in ''.init_resource('' s \<or> str_in ''.insert_resource('' s \<or>
      str_in ''.add_event<'' s \<or> str_in ''.add_event('' s)"

definition is_configure_sets_line :: "string \<Rightarrow> bool" where
  "is_configure_sets_line s = str_in ''.configure_sets('' s"

definition is_add_startup_line :: "string \<Rightarrow> bool" where
  "is_add_startup_line s = str_in ''.add_systems(Startup'' s"

definition is_add_update_line :: "string \<Rightarrow> bool" where
  "is_add_update_line s = str_in ''.add_systems(Update'' s"

text \<open>The condition of the \<^verbatim>\<open>if\<close>/\<^verbatim>\<open>elif\<close>/\<^verbatim>\<open>elif\<close> chain; the three branches have the
  same body, so the chain is their disjunction.\<close>

definition phase_boundary :: "string \<Rightarrow> string \<Rightarrow> bool" where
  "phase_boundary prev_nonblank s =
     ((is_configure_sets_line s \<and> prev_nonblank \<noteq> [] \<and> is_resource_line prev_nonblank) \<or>
      (is_add_startup_line s \<and> prev_nonblank \<noteq> [] \<and>
         (is_resource_line prev_nonblank \<or> is_configure_sets_line prev_nonblank)) \<or>
      (is_add_update_line s \<and> prev_nonblank \<noteq> [] \<and>
         (is_add_startup_line prev_nonblank \<or> is_configure_sets_line prev_nonblank \<or>
          is_resource_line prev_nonblank)))"

fun plugin_loop :: "string list \<Rightarrow> string \<Rightarrow> string list \<Rightarrow> string list" where
  "plugin_loop out prev_nonblank [] = out"
| "plugin_loop out prev_nonblank (line # rest) =
     (if strip line \<noteq> [] then
        (if phase_boundary prev_nonblank (strip line)
         then plugin_loop (append_nl_unless_blank out @ [line]) (strip line) rest
         else plugin_loop (out @ [line]) (strip line) rest)
      else plugin_loop (out @ [line]) prev_nonblank rest)"

definition plugin_chain_spacing :: "string list \<Rightarrow> string list" where
  "plugin_chain_spacing lines = plugin_loop [] [] lines"

subsection \<open>\<^verbatim>\<open>inside_fn_blank_lines\<close>\<close>

definition starts_control :: "string \<Rightarrow> bool" where
  "starts_control nxt_s =
     startswith_any nxt_s
       [''if '', ''if('', ''match '', ''for '', ''while '', ''loop'', ''return '']"

text \<open>The first \<^verbatim>\<open>if\<close> of the loop body: a blank line before a control-flow starter.\<close>

definition control_step :: "string list \<Rightarrow> int \<Rightarrow> string \<Rightarrow> string list \<Rightarrow> string list" where
  "control_step out prev_depth stripped rest =
     (case rest of
        [] \<Rightarrow> out
      | nxt # _ \<Rightarrow>
          if prev_depth > 0 then
            if starts_control (strip nxt) \<and> stripped \<noteq> [] \<and> \<not> startswith stripped ''//''
            then append_nl_unless_blank out
            else out
          else out)"

text \<open>The second \<^verbatim>\<open>if\<close>: after a closing brace, \<open>j\<close> runs past the blank lines that
  follow; \<open>dropWhile\<close> leaves the lines from index \<open>j\<close> on.\<close>

definition brace_step :: "string list \<Rightarrow> int \<Rightarrow> string \<Rightarrow> string list \<Rightarrow> string list" where
  "brace_step out prev_depth stripped rest =
     (if endswith stripped ''}'' \<and> prev_depth > 0 then
        (case dropWhile (\<lambda>l. strip l = []) rest of
           [] \<Rightarrow> out
         | lj # _ \<Rightarrow>
             if strip lj \<noteq> [] \<and> \<not> startswith_any (strip lj) [''}'', '')'', '','', ''//'']
             then append_nl_unless_blank out
             else out)
      else out)"

fun inside_loop :: "string list \<Rightarrow> int \<Rightarrow> string list \<Rightarrow> string list" where
  "inside_loop out brace_depth [] = out"
| "inside_loop out brace_depth (line # rest) =
     inside_loop
       (brace_step (control_step (out @ [line]) brace_depth (strip line) rest)
          brace_depth (strip line) rest)
       (brace_depth + count_char line CHR ''{'' - count_char line CHR ''}'')
       rest"

definition inside_fn_blank_lines :: "string list \<Rightarrow> string list" where
  "inside_fn_blank_lines lines = inside_loop [] 0 lines"

subsection \<open>\<^verbatim>\<open>cap_consecutive_blank_lines\<close>\<close>

fun cap_loop :: "int \<Rightarrow> string list \<Rightarrow> int \<Rightarrow> string list \<Rightarrow> string list" where
  "cap_loop max_blanks out blank_run [] = out"
| "cap_loop max_blanks out blank_run (line # rest) =
     (if strip line = [] then
        (if blank_run + 1 \<le> max_blanks
         then cap_loop max_blanks (out @ [nl]) (blank_run + 1) rest
         else cap_loop max_blanks out (blank_run + 1) rest)
      else cap_loop max_blanks (out @ [line]) 0 rest)"

definition cap_consecutive_blank_lines :: "string list \<Rightarrow> int \<Rightarrow> string list" where
  "cap_consecutive_blank_lines lines max_blanks = cap_loop max_blanks [] 0 lines"

section \<open>The pipeline of \<^verbatim>\<open>process_file\<close>\<close>

definition pipeline :: "string list \<Rightarrow> string list" where
  "pipeline lines =
     cap_consecutive_blank_lines
       (inside_fn_blank_lines
          (plugin_chain_spacing
             (ensure_single_blank_between_items
                (group_import_blocks lines))))
       2"

text \<open>\<^verbatim>\<open>new_txt\<close> of \<^verbatim>\<open>process_file\<close>: split, run the passes, join.\<close>

definition new_txt :: "string \<Rightarrow> string" where
  "new_txt txt = concat (pipeline (splitlines txt))"

section \<open>Files and the batch run\<close>

text \<open>An exception carries its message, the text that \<^verbatim>\<open>str(e)\<close> gives. A path is
  modelled by the text that \<^verbatim>\<open>str(p)\<close> gives.\<close>

datatype exn = Exception string

type_synonym path = string

text \<open>The file system as \<^verbatim>\<open>process_file\<close> sees it: what \<^verbatim>\<open>read_text\<close> gives for a path
  (the decoded text, or the exception it raises: missing file, permission, decoding),
  and the exception that \<^verbatim>\<open>write_text\<close> raises for a path, if any. A write that raises
  is modelled as leaving the file system as it was.\<close>

record filesystem =
  read_result :: "path \<Rightarrow> exn + string"
  write_error :: "path \<Rightarrow> exn option"

definition read_text :: "filesystem \<Rightarrow> path \<Rightarrow> exn + string" where
  "read_text fs p = read_result fs p"

definition write_text :: "filesystem \<Rightarrow> path \<Rightarrow> string \<Rightarrow> exn + filesystem" where
  "write_text fs p txt =
     (case write_error fs p of
        Some e \<Rightarrow> Inl e
      | None \<Rightarrow> Inr (fs\<lparr>read_result := (read_result fs)(p := Inr txt)\<rparr>))"

text \<open>\<^verbatim>\<open>process_file\<close> returns whether it wrote the file, together with the file system
  after the call, or the exception that escaped.\<close>

definition process_file :: "filesystem \<Rightarrow> path \<Rightarrow> exn + (bool \<times> filesystem)" where
  "process_file fs p =
     (case read_text fs p of
        Inl e \<Rightarrow> Inl e
      | Inr txt \<Rightarrow>
          if new_txt txt \<noteq> txt then
            (case write_text fs p (new_txt txt) of
               Inl e \<Rightarrow> Inl e
             | Inr fs' \<Rightarrow> Inr (True, fs'))
          else Inr (False, fs))"

text \<open>The state of \<^verbatim>\<open>main\<close>: the counter, the lines printed to \<^verbatim>\<open>sys.stderr\<close> and the
  file system.\<close>

record run =
  changed :: int
  stderr :: "string list"
  files :: filesystem

definition warning_line :: "path \<Rightarrow> string \<Rightarrow> string" where
  "warning_line p msg = ''Warning: failed to process '' @ p @ '': '' @ msg"

text \<open>The \<^verbatim>\<open>for\<close> loop of \<^verbatim>\<open>main\<close> over the paths that the glob yields; the
  \<^verbatim>\<open>except Exception\<close> clause is the \<open>Inl\<close> branch.\<close>

fun main_loop :: "run \<Rightarrow> path list \<Rightarrow> run" where
  "main_loop st [] = st"
| "main_loop st (p # ps) =
     (case process_file (files st) p of
        Inl (Exception msg) \<Rightarrow>
          main_loop (st\<lparr>stderr := stderr st @ [warning_line p msg]\<rparr>) ps
      | Inr (True, fs') \<Rightarrow> main_loop (st\<lparr>changed := changed st + 1, files := fs'\<rparr>) ps
      | Inr (False, fs') \<Rightarrow> main_loop (st\<lparr>files := fs'\<rparr>) ps)"

text \<open>Decimal digits of an integer, for the final \<^verbatim>\<open>print\<close>.\<close>

function str_nat :: "nat \<Rightarrow> string" where
  "str_nat n =
     (if n < 10 then [char_of (48 + n)]
      else str_nat (n div 10) @ [char_of (48 + n mod 10)])"
  by pat_completeness auto
termination
  by (relation "measure (\<lambda>n. n)") auto

definition str_int :: "int \<Rightarrow> string" where
  "str_int i = (if i < 0 then ''-'' @ str_nat (nat (- i)) else str_nat (nat i))"

text \<open>\<^verbatim>\<open>main\<close>: the final state and the line printed to standard output.\<close>

definition main :: "filesystem \<Rightarrow> path list \<Rightarrow> run \<times> string" where
  "main fs paths =
     (let st = main_loop \<lparr>changed = 0, stderr = [], files = fs\<rparr> paths
      in (st, ''Files changed: '' @ str_int (changed st)))"

text \<open>What one file does on a given file system: the warning it causes, if it fails,
  and whether it is counted as changed.\<close>

definition warning_of :: "filesystem \<Rightarrow> path \<Rightarrow> string option" where
  "warning_of fs p =
     (case process_file fs p of
        Inl (Exception msg) \<Rightarrow> Some (warning_line p msg)
      | Inr _ \<Rightarrow> None)"

definition counts_as_changed :: "filesystem \<Rightarrow> path \<Rightarrow> bool" where
  "counts_as_changed fs p =
     (case process_file fs p of Inl _ \<Rightarrow> False | Inr (b, _) \<Rightarrow> b)"

section \<open>Notions used to state the properties\<close>

text \<open>The non-blank lines of a sequence, in order.\<close>

definition nonblank_lines :: "string list \<Rightarrow> string list" where
  "nonblank_lines ls = filter (\<lambda>l. strip l \<noteq> []) ls"

text \<open>The lengths of the runs of blank lines: the run before the first non-blank line,
  the runs between consecutive non-blank lines, and the run after the last one. A
  sequence with \<open>k\<close> non-blank lines has \<open>k + 1\<close> runs, some of length 0.\<close>

fun runs_from :: "nat \<Rightarrow> string list \<Rightarrow> nat list" where
  "runs_from k [] = [k]"
| "runs_from k (l # ls) =
     (if strip l = [] then runs_from (Suc k) ls else k # runs_from 0 ls)"

definition blank_runs :: "string list \<Rightarrow> nat list" where
  "blank_runs ls = runs_from 0 ls"

subsection \<open>The spacing rules, as the specification words them\<close>

text \<open>The rules of sections 4.2 to 4.6 of the specification. A line is item-start or
  import-or-module when the pattern of the pass matches the line as it stands, it is an
  attribute or documentation line when its trimmed text starts with \<^verbatim>\<open>#[\<close>, \<^verbatim>\<open>//!\<close> or
  \<^verbatim>\<open>///\<close>, a comment when its trimmed text starts with \<^verbatim>\<open>//\<close>, and the phase of a call is
  read off the markers of \<^verbatim>\<open>plugin_chain_spacing\<close>.\<close>



text \<open>ImportBlockGrouper: a run of use/mod lines has a blank line (or nothing) before it
  and a blank line (or nothing) after it.\<close>

fun imports_grouped :: "string list \<Rightarrow> bool" where
  "imports_grouped (a # b # rest) =
     (\<not> (is_use_or_mod b \<and> \<not> is_use_or_mod a \<and> strip a \<noteq> []) \<and>
      \<not> (is_use_or_mod a \<and> \<not> is_use_or_mod b \<and> strip b \<noteq> []) \<and>
      imports_grouped (b # rest))"
| "imports_grouped ls = True"

text \<open>ItemSeparator: a line that starts an item or is a use/mod line comes first, or
  after a blank line, or after an attribute or documentation line.\<close>

fun items_separated :: "string list \<Rightarrow> bool" where
  "items_separated (a # b # rest) =
     (\<not> ((re_match item_start_re b \<or> re_match use_mod_re b) \<and> strip a \<noteq> [] \<and>
         \<not> startswith_any (strip a) [''#['', ''//!'', ''///'']) \<and>
      items_separated (b # rest))"
| "items_separated ls = True"






text \<open>BlankLineCapper: no run of more than two blank lines.\<close>

definition blank_runs_capped :: "string list \<Rightarrow> bool" where
  "blank_runs_capped ls = list_all (\<lambda>r. r \<le> 2) (blank_runs ls)"


subsection \<open>Three further conditions\<close>

text \<open>Every blank line is the bare \<^verbatim>\<open>"\n"\<close>.\<close>

definition blank_lines_bare :: "string list \<Rightarrow> bool" where
  "blank_lines_bare ls = list_all (\<lambda>l. strip l \<noteq> [] \<or> l = nl) ls"



section \<open>Properties of the passes\<close>

subsection \<open>Non-blank lines\<close>

lemma strip_nl [simp]: "strip nl = []"
  by (simp add: strip_def nl_def isspace_def)

lemma nonblank_lines_append [simp]:
  "nonblank_lines (xs @ ys) = nonblank_lines xs @ nonblank_lines ys"
  by (simp add: nonblank_lines_def)

lemma nonblank_lines_Nil [simp]: "nonblank_lines [] = []"
  by (simp add: nonblank_lines_def)

lemma nonblank_lines_Cons [simp]:
  "nonblank_lines (l # ls) = (if strip l = [] then nonblank_lines ls else l # nonblank_lines ls)"
  by (simp add: nonblank_lines_def)

lemma nonblank_lines_nl [simp]: "nonblank_lines [nl] = []"
  by simp

lemma nonblank_append_nl_unless_blank [simp]:
  "nonblank_lines (append_nl_unless_blank out) = nonblank_lines out"
  by (simp add: append_nl_unless_blank_def)

lemma nonblank_ensure_loop:
  "nonblank_lines (ensure_loop out ls) = nonblank_lines out @ nonblank_lines ls"
  by (induction out ls rule: ensure_loop.induct) simp_all

lemma nonblank_take_drop:
  "nonblank_lines (takeWhile P xs) @ nonblank_lines (dropWhile P xs) = nonblank_lines xs"
  by (metis nonblank_lines_append takeWhile_dropWhile_id)

lemma nonblank_group_loop:
  "nonblank_lines (group_loop out ls) = nonblank_lines out @ nonblank_lines ls"
proof (induction out ls rule: group_loop.induct)
  case (1 out)
  show ?case by simp
next
  case (2 out line rest)
  show ?case
  proof (cases "is_use_or_mod line")
    case True
    let ?blk = "takeWhile is_use_or_mod (line # rest)"
    let ?rest2 = "dropWhile is_use_or_mod (line # rest)"
    let ?out2 = "append_nl_unless_blank out @ ?blk"
    let ?out3 = "if ?rest2 \<noteq> [] \<and> strip (hd ?rest2) \<noteq> [] then ?out2 @ [nl] else ?out2"
    have step: "group_loop out (line # rest) = group_loop ?out3 ?rest2"
      using True by (simp add: Let_def)
    have ih: "nonblank_lines (group_loop ?out3 ?rest2) = nonblank_lines ?out3 @ nonblank_lines ?rest2"
      using "2.IH"(1)[OF True refl refl refl refl] .
    have "nonblank_lines ?out3 = nonblank_lines out @ nonblank_lines ?blk"
      by simp
    then have "nonblank_lines ?out3 @ nonblank_lines ?rest2 = nonblank_lines out @ nonblank_lines (line # rest)"
      using nonblank_take_drop[of is_use_or_mod "line # rest"] by simp
    with step ih show ?thesis by simp
  next
    case False
    then show ?thesis using "2.IH"(2) by simp
  qed
qed

lemma nonblank_plugin_loop:
  "nonblank_lines (plugin_loop out prev ls) = nonblank_lines out @ nonblank_lines ls"
  by (induction out prev ls rule: plugin_loop.induct) simp_all

lemma nonblank_control_step [simp]:
  "nonblank_lines (control_step out d s rest) = nonblank_lines out"
  by (simp add: control_step_def split: list.splits)

lemma nonblank_brace_step [simp]:
  "nonblank_lines (brace_step out d s rest) = nonblank_lines out"
  by (simp add: brace_step_def split: list.splits)

lemma nonblank_inside_loop:
  "nonblank_lines (inside_loop out d ls) = nonblank_lines out @ nonblank_lines ls"
  by (induction out d ls rule: inside_loop.induct) simp_all

lemma nonblank_cap_loop:
  "nonblank_lines (cap_loop m out r ls) = nonblank_lines out @ nonblank_lines ls"
  by (induction m out r ls rule: cap_loop.induct) simp_all

subsection \<open>The cap\<close>

lemma cap_loop_out: "cap_loop m out r ls = out @ cap_loop m [] r ls"
proof (induction ls arbitrary: out r)
  case Nil
  show ?case by simp
next
  case (Cons l ls)
  have a: "\<And>out r. cap_loop m out r ls = out @ cap_loop m [] r ls"
    by (rule Cons.IH)
  show ?case
  proof (cases "strip l = []")
    case True
    show ?thesis
    proof (cases "r + 1 \<le> m")
      case le: True
      show ?thesis using True le a[of "out @ [nl]"] a[of "[nl]"] by simp
    next
      case gt: False
      show ?thesis using True gt a[of out "r + 1"] by simp
    qed
  next
    case False
    then show ?thesis using a[of "out @ [l]"] a[of "[l]"] by simp
  qed
qed

lemma cap_loop_blank_is_nl:
  "\<forall>l \<in> set out. strip l = [] \<longrightarrow> l = nl \<Longrightarrow>
   \<forall>l \<in> set (cap_loop m out r ls). strip l = [] \<longrightarrow> l = nl"
  by (induction m out r ls rule: cap_loop.induct) auto

lemma nat_min_2: "0 \<le> r \<Longrightarrow> nat (min r 2) = min 2 (nat r)"
  by arith

lemma runs_cap_loop:
  "0 \<le> r \<Longrightarrow>
   runs_from (nat (min r 2)) (cap_loop 2 [] r ls) = map (min 2) (runs_from (nat r) ls)"
proof (induction ls arbitrary: r)
  case Nil
  then show ?case by (simp add: nat_min_2)
next
  case (Cons l ls)
  show ?case
  proof (cases "strip l = []")
    case True
    have ih: "runs_from (nat (min (r + 1) 2)) (cap_loop 2 [] (r + 1) ls)
                = map (min 2) (runs_from (nat (r + 1)) ls)"
      using Cons.IH[of "r + 1"] Cons.prems by simp
    have n: "nat (r + 1) = Suc (nat r)" using Cons.prems by simp
    show ?thesis
    proof (cases "r + 1 \<le> 2")
      case le: True
      have "cap_loop 2 [] r (l # ls) = nl # cap_loop 2 [] (r + 1) ls"
        using True le cap_loop_out[of 2 "[nl]" "r + 1" ls] by simp
      moreover have "Suc (nat (min r 2)) = nat (min (r + 1) 2)"
        using le Cons.prems by arith
      ultimately show ?thesis using True ih n by simp
    next
      case gt: False
      have "cap_loop 2 [] r (l # ls) = cap_loop 2 [] (r + 1) ls"
        using True gt by simp
      moreover have "nat (min r 2) = nat (min (r + 1) 2)"
        using gt by arith
      ultimately show ?thesis using True ih n by simp
    qed
  next
    case False
    have "cap_loop 2 [] r (l # ls) = l # cap_loop 2 [] 0 ls"
      using False cap_loop_out[of 2 "[l]" 0 ls] by simp
    moreover have "runs_from 0 (cap_loop 2 [] 0 ls) = map (min 2) (runs_from 0 ls)"
      using Cons.IH[of 0] by simp
    moreover have "nat (min r 2) = min 2 (nat r)"
      using Cons.prems by (rule nat_min_2)
    ultimately show ?thesis using False by simp
  qed
qed

text \<open>
  Claim C2 (non-blank preservation). For every line sequence, each of the five passes and
  the whole pipeline leave the subsequence of non-blank lines (lines whose stripped text
  is not empty) as it is, in content and in order: only blank lines are inserted or
  removed.
\<close>

theorem nonblank_lines_preserved:
  "nonblank_lines (group_import_blocks ls) = nonblank_lines ls \<and>
   nonblank_lines (ensure_single_blank_between_items ls) = nonblank_lines ls \<and>
   nonblank_lines (plugin_chain_spacing ls) = nonblank_lines ls \<and>
   nonblank_lines (inside_fn_blank_lines ls) = nonblank_lines ls \<and>
   nonblank_lines (cap_consecutive_blank_lines ls 2) = nonblank_lines ls \<and>
   nonblank_lines (pipeline ls) = nonblank_lines ls"
  by (simp add: pipeline_def cap_consecutive_blank_lines_def inside_fn_blank_lines_def
      plugin_chain_spacing_def ensure_single_blank_between_items_def group_import_blocks_def
      nonblank_cap_loop nonblank_inside_loop nonblank_plugin_loop nonblank_ensure_loop
      nonblank_group_loop)

theorem nonblank_lines_preserved_witness:
  "nonblank_lines (pipeline [''use a;\<newline>'', ''fn f() {\<newline>'', '' \<newline>'', ''}\<newline>''])
     = [''use a;\<newline>'', ''fn f() {\<newline>'', ''}\<newline>'']"
proof -
  have "nonblank_lines [''use a;\<newline>'', ''fn f() {\<newline>'', '' \<newline>'', ''}\<newline>'']
          = [''use a;\<newline>'', ''fn f() {\<newline>'', ''}\<newline>'']"
    by code_simp
  then show ?thesis
    using nonblank_lines_preserved
      [of "[''use a;\<newline>'', ''fn f() {\<newline>'', '' \<newline>'', ''}\<newline>'']"]
    by simp
qed

lemma runs_from_bound: "list_all (\<lambda>x. x \<le> n) (runs_from k ls) \<Longrightarrow> k \<le> n"
  by (induction ls arbitrary: k) (auto split: if_splits dest: Suc_leD)

lemma cap_loop_id:
  "0 \<le> r \<Longrightarrow> list_all (\<lambda>x. x \<le> 2) (runs_from (nat r) ls) \<Longrightarrow>
   list_all (\<lambda>l. strip l \<noteq> [] \<or> l = nl) ls \<Longrightarrow> cap_loop 2 [] r ls = ls"
proof (induction ls arbitrary: r)
  case Nil
  show ?case by simp
next
  case (Cons l ls)
  show ?case
  proof (cases "strip l = []")
    case True
    have n: "nat (r + 1) = Suc (nat r)" using Cons.prems(1) by simp
    have runs: "list_all (\<lambda>x. x \<le> 2) (runs_from (nat (r + 1)) ls)"
      using Cons.prems(2) True by (simp add: n)
    then have "nat (r + 1) \<le> 2" by (rule runs_from_bound)
    then have le: "r + 1 \<le> 2" by simp
    have l: "l = nl" using Cons.prems(3) True by simp
    have "cap_loop 2 [] (r + 1) ls = ls"
      using Cons.prems(1,3) runs by (intro Cons.IH) simp_all
    then show ?thesis
      using True le l cap_loop_out[of 2 "[nl]" "r + 1" ls] by simp
  next
    case False
    have "cap_loop 2 [] 0 ls = ls"
      using Cons.prems(2,3) False by (intro Cons.IH) simp_all
    then show ?thesis using False cap_loop_out[of 2 "[l]" 0 ls] by simp
  qed
qed

text \<open>A run of one blank line that does not pass through unchanged: the line made of a
  space comes out as \<^verbatim>\<open>"\n"\<close>.\<close>

theorem cap_rewrites_run_of_one_counterexample:
  "blank_runs [''a\<newline>'', '' \<newline>'', ''b\<newline>''] = [0, 1, 0] \<and>
   cap_consecutive_blank_lines [''a\<newline>'', '' \<newline>'', ''b\<newline>''] 2 = [''a\<newline>'', ''\<newline>'', ''b\<newline>''] \<and>
   cap_consecutive_blank_lines [''a\<newline>'', '' \<newline>'', ''b\<newline>''] 2 \<noteq> [''a\<newline>'', '' \<newline>'', ''b\<newline>'']"
  by code_simp

text \<open>
  Claim C4 (the cap), as amended. As stated the claim fails: a run of one or two blank
  lines passes through with its length, not with its text, since the pass appends
  \<^verbatim>\<open>"\n"\<close> for every blank line it keeps. What holds: \<^verbatim>\<open>cap_consecutive_blank_lines\<close> with
  the cap 2 turns every run of three or more blank lines into a run of exactly two and
  keeps the length of every run of zero to two blank lines, the non-blank lines staying as
  they are; so no run of blank lines in its output is longer than two. Every blank line it
  keeps comes out as \<^verbatim>\<open>"\n"\<close>, and a sequence whose runs have at most two blank lines, each
  of them \<^verbatim>\<open>"\n"\<close>, comes out as it went in.
\<close>

theorem cap_collapses_runs:
  "blank_runs (cap_consecutive_blank_lines ls 2)
     = map (\<lambda>r. if 3 \<le> r then 2 else r) (blank_runs ls) \<and>
   nonblank_lines (cap_consecutive_blank_lines ls 2) = nonblank_lines ls \<and>
   list_all (\<lambda>r. r \<le> 2) (blank_runs (cap_consecutive_blank_lines ls 2)) \<and>
   blank_lines_bare (cap_consecutive_blank_lines ls 2) \<and>
   (blank_runs_capped ls \<and> blank_lines_bare ls \<longrightarrow> cap_consecutive_blank_lines ls 2 = ls)"
proof -
  have m: "(\<lambda>r::nat. if 3 \<le> r then 2 else r) = min 2"
    by (auto simp: fun_eq_iff min_def)
  have runs: "blank_runs (cap_consecutive_blank_lines ls 2) = map (min 2) (blank_runs ls)"
    using runs_cap_loop[of 0 ls] by (simp add: blank_runs_def cap_consecutive_blank_lines_def)
  have capped: "list_all (\<lambda>r. r \<le> 2) (map (min 2) (blank_runs ls))"
    by (simp add: list_all_iff)
  have bare: "blank_lines_bare (cap_consecutive_blank_lines ls 2)"
    using cap_loop_blank_is_nl[of "[]" 2 0 ls]
    by (auto simp: blank_lines_bare_def cap_consecutive_blank_lines_def list_all_iff)
  have same: "cap_consecutive_blank_lines ls 2 = ls"
    if "blank_runs_capped ls" and "blank_lines_bare ls"
    using that cap_loop_id[of 0 ls]
    by (simp add: cap_consecutive_blank_lines_def blank_runs_capped_def blank_runs_def
        blank_lines_bare_def)
  show ?thesis
    using runs capped bare same
    by (simp add: m cap_consecutive_blank_lines_def nonblank_cap_loop)
qed

theorem cap_collapses_runs_witness:
  "blank_runs [''\<newline>'', ''a\<newline>'', '' \<newline>'', ''\<newline>'', ''\<newline>'', ''\<newline>'', ''b\<newline>'', ''c\<newline>''] = [1, 4, 0, 0] \<and>
   blank_runs (cap_consecutive_blank_lines
       [''\<newline>'', ''a\<newline>'', '' \<newline>'', ''\<newline>'', ''\<newline>'', ''\<newline>'', ''b\<newline>'', ''c\<newline>''] 2) = [1, 2, 0, 0] \<and>
   cap_consecutive_blank_lines [''a\<newline>'', ''\<newline>'', ''\<newline>'', ''b\<newline>'', ''\<newline>''] 2
     = [''a\<newline>'', ''\<newline>'', ''\<newline>'', ''b\<newline>'', ''\<newline>'']"
proof -
  have r: "blank_runs [''\<newline>'', ''a\<newline>'', '' \<newline>'', ''\<newline>'', ''\<newline>'', ''\<newline>'', ''b\<newline>'', ''c\<newline>'']
             = [1, 4, 0, 0]"
    by code_simp
  have h: "blank_runs_capped [''a\<newline>'', ''\<newline>'', ''\<newline>'', ''b\<newline>'', ''\<newline>''] \<and>
           blank_lines_bare [''a\<newline>'', ''\<newline>'', ''\<newline>'', ''b\<newline>'', ''\<newline>'']"
    by code_simp
  have a: "blank_runs (cap_consecutive_blank_lines
       [''\<newline>'', ''a\<newline>'', '' \<newline>'', ''\<newline>'', ''\<newline>'', ''\<newline>'', ''b\<newline>'', ''c\<newline>''] 2) = [1, 2, 0, 0]"
    using cap_collapses_runs
      [of "[''\<newline>'', ''a\<newline>'', '' \<newline>'', ''\<newline>'', ''\<newline>'', ''\<newline>'', ''b\<newline>'', ''c\<newline>'']"]
    by (simp add: r)
  have b: "cap_consecutive_blank_lines [''a\<newline>'', ''\<newline>'', ''\<newline>'', ''b\<newline>'', ''\<newline>''] 2
             = [''a\<newline>'', ''\<newline>'', ''\<newline>'', ''b\<newline>'', ''\<newline>'']"
    using cap_collapses_runs [of "[''a\<newline>'', ''\<newline>'', ''\<newline>'', ''b\<newline>'', ''\<newline>'']"] h
    by blast
  show ?thesis using r a b by blast
qed

subsection \<open>Splitting into lines, and the text of blank lines\<close>

lemma concat_splitlines_from: "concat (splitlines_from cur s) = cur @ s"
  by (induction cur s rule: splitlines_from.induct) simp_all

lemma concat_splitlines: "concat (splitlines txt) = txt"
  by (simp add: splitlines_def concat_splitlines_from)

lemma splitlines_from_shape:
  "l \<in> set (splitlines_from cur s) \<Longrightarrow> \<forall>c \<in> set cur. c \<noteq> CHR 0x0A \<Longrightarrow>
   l \<noteq> [] \<and> (\<forall>c \<in> set (butlast l). c \<noteq> CHR 0x0A)"
proof (induction cur s rule: splitlines_from.induct)
  case (1 cur)
  then show ?case by (auto split: if_splits dest: in_set_butlastD)
next
  case (2 cur c)
  then show ?case by (auto simp: butlast_append)
next
  case (3 cur c d cs)
  note mem = "3.prems"(1) and cur = "3.prems"(2)
  show ?case
  proof (cases "c = CHR 0x0D \<and> d = CHR 0x0A")
    case True
    then have "l = cur @ [c, d] \<or> l \<in> set (splitlines_from [] cs)"
      using mem by simp
    then show ?thesis
    proof
      assume "l = cur @ [c, d]"
      then show ?thesis using True cur by (simp add: butlast_append)
    next
      assume "l \<in> set (splitlines_from [] cs)"
      then show ?thesis using "3.IH"(1)[OF True] by simp
    qed
  next
    case False
    note not_crlf = False
    show ?thesis
    proof (cases "is_linebreak c")
      case True
      then have "l = cur @ [c] \<or> l \<in> set (splitlines_from [] (d # cs))"
        using mem not_crlf by auto
      then show ?thesis
      proof
        assume "l = cur @ [c]"
        then show ?thesis using cur by (simp add: butlast_append)
      next
        assume "l \<in> set (splitlines_from [] (d # cs))"
        then show ?thesis using "3.IH"(2)[OF not_crlf True] by simp
      qed
    next
      case False
      then have c: "c \<noteq> CHR 0x0A" by (auto simp: is_linebreak_def)
      have "l \<in> set (splitlines_from (cur @ [c]) (d # cs))"
        using mem not_crlf False by auto
      then show ?thesis using "3.IH"(3)[OF not_crlf False] cur c by simp
    qed
  qed
qed

lemma blank_line_not_nl_has_other_char:
  assumes "l \<in> set (splitlines txt)" and "l \<noteq> nl"
  shows "\<exists>c \<in> set l. c \<noteq> CHR 0x0A"
proof -
  have sh1: "l \<noteq> [] \<and> (\<forall>c \<in> set (butlast l). c \<noteq> CHR 0x0A)"
    using assms(1) unfolding splitlines_def
    by (rule splitlines_from_shape) simp
  show ?thesis
  proof (cases "butlast l = []")
    case True
    then obtain c where "l = [c]" using sh1 by (cases l) (auto split: if_splits)
    then show ?thesis using assms(2) by (auto simp: nl_def)
  next
    case False
    then obtain c where "c \<in> set (butlast l)" by (cases "butlast l") auto
    then show ?thesis using sh1 by (auto dest: in_set_butlastD)
  qed
qed

lemma other_chars_of_bare:
  "\<forall>l \<in> set ls. strip l = [] \<longrightarrow> l = nl \<Longrightarrow>
   filter (\<lambda>c. c \<noteq> CHR 0x0A) (concat ls) = filter (\<lambda>c. c \<noteq> CHR 0x0A) (concat (nonblank_lines ls))"
  by (induction ls) (auto simp: nl_def)

lemma other_chars_nonblank_le:
  "length (filter P (concat (nonblank_lines ls))) \<le> length (filter P (concat ls))"
  by (induction ls) auto

lemma other_chars_nonblank_less:
  "l \<in> set ls \<Longrightarrow> strip l = [] \<Longrightarrow> c \<in> set l \<Longrightarrow> P c \<Longrightarrow>
   length (filter P (concat (nonblank_lines ls))) < length (filter P (concat ls))"
proof (induction ls)
  case Nil
  then show ?case by simp
next
  case (Cons a ls)
  have eq2: "length (filter P (concat (a # ls))) = length (filter P a) + length (filter P (concat ls))"
    by simp
  show ?case
  proof (cases "l = a")
    case True
    have "filter P a \<noteq> []" using True Cons.prems by (auto simp: filter_empty_conv)
    then have pos: "0 < length (filter P a)" by simp
    have eq1: "length (filter P (concat (nonblank_lines (a # ls))))
                 = length (filter P (concat (nonblank_lines ls)))"
      using True Cons.prems(2) by simp
    show ?thesis unfolding eq1 eq2 using pos other_chars_nonblank_le[of P ls] by linarith
  next
    case False
    then have less: "length (filter P (concat (nonblank_lines ls))) < length (filter P (concat ls))"
      using Cons by simp
    have "length (filter P (concat (nonblank_lines (a # ls))))
            \<le> length (filter P a) + length (filter P (concat (nonblank_lines ls)))"
      by simp
    then show ?thesis unfolding eq2 using less by linarith
  qed
qed

lemma pipeline_blank_is_nl: "\<forall>l \<in> set (pipeline ls). strip l = [] \<longrightarrow> l = nl"
  using cap_loop_blank_is_nl[of "[]"] by (simp add: pipeline_def cap_consecutive_blank_lines_def)

lemma nonblank_pipeline: "nonblank_lines (pipeline ls) = nonblank_lines ls"
  by (simp add: pipeline_def cap_consecutive_blank_lines_def inside_fn_blank_lines_def
      plugin_chain_spacing_def ensure_single_blank_between_items_def group_import_blocks_def
      nonblank_cap_loop nonblank_inside_loop nonblank_plugin_loop nonblank_ensure_loop
      nonblank_group_loop)

lemma new_txt_changes:
  assumes "l \<in> set (splitlines txt)" and "strip l = []" and "l \<noteq> nl"
  shows "new_txt txt \<noteq> txt"
proof
  assume eq: "new_txt txt = txt"
  let ?P = "\<lambda>c. c \<noteq> CHR 0x0A"
  obtain c where c: "c \<in> set l" "?P c"
    using blank_line_not_nl_has_other_char[OF assms(1,3)] by blast
  have "filter ?P (new_txt txt) = filter ?P (concat (nonblank_lines (pipeline (splitlines txt))))"
    unfolding new_txt_def by (rule other_chars_of_bare) (rule pipeline_blank_is_nl)
  also have "\<dots> = filter ?P (concat (nonblank_lines (splitlines txt)))"
    by (simp add: nonblank_pipeline)
  finally have "length (filter ?P (new_txt txt)) < length (filter ?P (concat (splitlines txt)))"
    using other_chars_nonblank_less[where P = "?P", OF assms(1,2) c] by simp
  then show False using eq by (simp add: concat_splitlines)
qed

text \<open>
  Claim C10 (kept blank lines are bare). Every blank line in the pipeline's output is
  exactly \<^verbatim>\<open>"\n"\<close>, since \<^verbatim>\<open>cap_consecutive_blank_lines\<close> runs last and appends
  \<^verbatim>\<open>"\n"\<close> for each blank line it keeps. So a text with a whitespace-only line other than
  \<^verbatim>\<open>"\n"\<close> (one with spaces or tabs, or a last line without terminator) never comes back
  unchanged, wherever its blank lines stand, and \<^verbatim>\<open>process_file\<close> writes the file.
\<close>

theorem kept_blank_lines_are_bare:
  "(\<forall>l \<in> set (pipeline ls). strip l = [] \<longrightarrow> l = nl) \<and>
   ((\<exists>l \<in> set (splitlines txt). strip l = [] \<and> l \<noteq> nl) \<longrightarrow>
      new_txt txt \<noteq> txt \<and>
      (read_text fs p = Inr txt \<and> write_error fs p = None \<longrightarrow>
         process_file fs p
           = Inr (True, fs\<lparr>read_result := (read_result fs)(p := Inr (new_txt txt))\<rparr>)))"
proof -
  have w: "process_file fs p
             = Inr (True, fs\<lparr>read_result := (read_result fs)(p := Inr (new_txt txt))\<rparr>)"
    if "new_txt txt \<noteq> txt" and "read_text fs p = Inr txt" and "write_error fs p = None"
    using that by (simp add: process_file_def write_text_def)
  show ?thesis using pipeline_blank_is_nl new_txt_changes w by blast
qed

theorem kept_blank_lines_are_bare_witness:
  "list_all (\<lambda>l. strip l \<noteq> [] \<or> l = nl) (pipeline [''a\<newline>'', ''  \<newline>'', ''b'', ''\<newline>'']) \<and>
   new_txt ''a\<newline>\<newline>b\<newline>\<newline> \<newline>'' \<noteq> ''a\<newline>\<newline>b\<newline>\<newline> \<newline>''"
proof -
  note k = kept_blank_lines_are_bare
      [of "[''a\<newline>'', ''  \<newline>'', ''b'', ''\<newline>'']" "''a\<newline>\<newline>b\<newline>\<newline> \<newline>''"]
  have s: "splitlines ''a\<newline>\<newline>b\<newline>\<newline> \<newline>'' = [''a\<newline>'', ''\<newline>'', ''b\<newline>'', ''\<newline>'', '' \<newline>'']"
    by code_simp
  have b: "strip '' \<newline>'' = [] \<and> '' \<newline>'' \<noteq> nl"
    by code_simp
  have h: "\<exists>l \<in> set (splitlines ''a\<newline>\<newline>b\<newline>\<newline> \<newline>''). strip l = [] \<and> l \<noteq> nl"
    unfolding s using b by (intro bexI[of _ "'' \<newline>''"]) simp_all
  have "list_all (\<lambda>l. strip l \<noteq> [] \<or> l = nl) (pipeline [''a\<newline>'', ''  \<newline>'', ''b'', ''\<newline>''])"
    unfolding list_all_iff using conjunct1[OF k] by blast
  moreover have "new_txt ''a\<newline>\<newline>b\<newline>\<newline> \<newline>'' \<noteq> ''a\<newline>\<newline>b\<newline>\<newline> \<newline>''"
    using mp[OF conjunct2[OF k] h] by (rule conjunct1)
  ultimately show ?thesis by (rule conjI)
qed

subsection \<open>Input on which no pass has anything to do\<close>

lemma ensure_loop_id: "items_separated ls \<Longrightarrow> ensure_loop out ls = out @ ls"
  by (induction out ls rule: ensure_loop.induct) auto

lemma imports_grouped_tl: "imports_grouped (a # ls) \<Longrightarrow> imports_grouped ls"
  by (cases ls) simp_all

lemma imports_grouped_dropWhile: "imports_grouped ls \<Longrightarrow> imports_grouped (dropWhile P ls)"
  by (induction ls) (auto dest: imports_grouped_tl)

lemma blank_after_block:
  "imports_grouped (l # ls) \<Longrightarrow> is_use_or_mod l \<Longrightarrow>
   dropWhile is_use_or_mod ls = r # rs \<Longrightarrow> strip r = []"
proof (induction ls arbitrary: l)
  case Nil
  then show ?case by simp
next
  case (Cons a ls)
  show ?case
  proof (cases "is_use_or_mod a")
    case True
    then show ?thesis
      using Cons.IH[of a] Cons.prems imports_grouped_tl[of l "a # ls"] by simp
  next
    case False
    then show ?thesis using Cons.prems by auto
  qed
qed

lemma append_nl_unless_blank_id:
  "out = [] \<or> strip (last out) = [] \<Longrightarrow> append_nl_unless_blank out = out"
  by (auto simp: append_nl_unless_blank_def)

lemma group_loop_id:
  "imports_grouped ls \<Longrightarrow>
   (case ls of [] \<Rightarrow> True | l # _ \<Rightarrow> is_use_or_mod l \<longrightarrow> out = [] \<or> strip (last out) = []) \<Longrightarrow>
   group_loop out ls = out @ ls"
proof (induction out ls rule: group_loop.induct)
  case (1 out)
  show ?case by simp
next
  case (2 out line rest)
  note grouped = "2.prems"(1) and before = "2.prems"(2)
  show ?case
  proof (cases "is_use_or_mod line")
    case True
    let ?blk = "takeWhile is_use_or_mod (line # rest)"
    let ?rest2 = "dropWhile is_use_or_mod (line # rest)"
    let ?out2 = "append_nl_unless_blank out @ ?blk"
    let ?out3 = "if ?rest2 \<noteq> [] \<and> strip (hd ?rest2) \<noteq> [] then ?out2 @ [nl] else ?out2"
    have step: "group_loop out (line # rest) = group_loop ?out3 ?rest2"
      using True by (simp add: Let_def)
    have o1: "append_nl_unless_blank out = out"
      using before True by (simp add: append_nl_unless_blank_id)
    have r2: "?rest2 = dropWhile is_use_or_mod rest" using True by simp
    have blank: "?rest2 \<noteq> [] \<Longrightarrow> strip (hd ?rest2) = []"
    proof -
      assume "?rest2 \<noteq> []"
      then obtain r rs where "dropWhile is_use_or_mod rest = r # rs"
        unfolding r2 by (cases "dropWhile is_use_or_mod rest") auto
      then show ?thesis
        unfolding r2 using blank_after_block[OF grouped True] by simp
    qed
    have o3: "?out3 = out @ ?blk"
    proof -
      have "\<not> (?rest2 \<noteq> [] \<and> strip (hd ?rest2) \<noteq> [])" using blank by blast
      then have "?out3 = ?out2" by (simp only: if_False)
      then show ?thesis by (simp only: o1)
    qed
    have g2: "imports_grouped ?rest2"
      using grouped by (rule imports_grouped_dropWhile)
    have nb: "case ?rest2 of [] \<Rightarrow> True
               | l # _ \<Rightarrow> is_use_or_mod l \<longrightarrow> ?out3 = [] \<or> strip (last ?out3) = []"
    proof (cases ?rest2)
      case Nil
      then show ?thesis by simp
    next
      case (Cons r rs)
      then have "\<not> is_use_or_mod r"
        using hd_dropWhile[of is_use_or_mod "line # rest"] by auto
      then show ?thesis using Cons by simp
    qed
    have "group_loop ?out3 ?rest2 = ?out3 @ ?rest2"
      using "2.IH"(1)[OF True refl refl refl refl g2 nb] .
    then show ?thesis
      unfolding step o3 using takeWhile_dropWhile_id[of is_use_or_mod "line # rest"]
      by (metis append.assoc)
  next
    case False
    have g: "imports_grouped rest" using grouped by (rule imports_grouped_tl)
    have nb: "case rest of [] \<Rightarrow> True
               | l # _ \<Rightarrow> is_use_or_mod l \<longrightarrow> out @ [line] = [] \<or> strip (last (out @ [line])) = []"
      using grouped False by (cases rest) auto
    show ?thesis using False "2.IH"(2)[OF False g nb] by simp
  qed
qed














subsection \<open>Lines that begin with whitespace\<close>

lemma startswith_Cons: "startswith (c # cs) (k # ks) = (c = k \<and> startswith cs ks)"
  by (auto simp: startswith_def)

lemma lit_after_space:
  "isspace c \<Longrightarrow> \<not> isspace k \<Longrightarrow> rmatch (Lit (k # ks)) (prev, c # cs) = []"
  by (auto simp: startswith_Cons)

lemma letters_not_space:
  "\<not> isspace CHR ''p''" "\<not> isspace CHR ''s''" "\<not> isspace CHR ''e''" "\<not> isspace CHR ''t''"
  "\<not> isspace CHR ''i''" "\<not> isspace CHR ''f''" "\<not> isspace CHR ''u''" "\<not> isspace CHR ''m''"
  by (simp_all add: isspace_def)

lemma leading_space_no_match:
  assumes "isspace c"
  shows "\<not> re_match item_start_re (c # cs)" and "\<not> re_match use_mod_re (c # cs)"
    and "\<not> is_use_or_mod (c # cs)"
  using assms
  by (simp_all add: re_match_def item_start_re_def use_mod_re_def use_re_def mod_re_def
      is_use_or_mod_def opt_pub_def lit_after_space letters_not_space del: rmatch.simps(1))

lemma imports_grouped_none:
  "list_all (\<lambda>l. \<not> is_use_or_mod l) ls \<Longrightarrow> imports_grouped ls"
  by (induction ls rule: imports_grouped.induct) simp_all

lemma items_separated_none:
  "list_all (\<lambda>l. \<not> re_match item_start_re l \<and> \<not> re_match use_mod_re l) ls \<Longrightarrow>
   items_separated ls"
  by (induction ls rule: items_separated.induct) simp_all

text \<open>
  Claim C8 (classification and indentation), as amended. As stated the claim fails: both
  passes match their patterns against the line as it is, not against its trimmed text, so
  \<^verbatim>\<open>use a::b;\<close> is a use/mod line and the indented \<^verbatim>\<open>    use a::b;\<close> is not. What holds:
  a line that begins with a whitespace character is never classified as item-start or
  import-or-module, whatever its trimmed text, and a sequence of such lines passes
  through \<^verbatim>\<open>group_import_blocks\<close> and \<^verbatim>\<open>ensure_single_blank_between_items\<close> unchanged.
\<close>

theorem leading_whitespace_line_not_classified:
  "(l \<noteq> [] \<and> isspace (hd l) \<longrightarrow>
      \<not> re_match item_start_re l \<and> \<not> re_match use_mod_re l \<and> \<not> is_use_or_mod l) \<and>
   (list_all (\<lambda>l. l \<noteq> [] \<and> isspace (hd l)) ls \<longrightarrow>
      group_import_blocks ls = ls \<and> ensure_single_blank_between_items ls = ls)"
proof -
  have cls: "\<not> re_match item_start_re l \<and> \<not> re_match use_mod_re l \<and> \<not> is_use_or_mod l"
    if "l \<noteq> []" and "isspace (hd l)" for l
    using that leading_space_no_match[of "hd l" "tl l"] by (cases l) simp_all
  have pass: "group_import_blocks ls = ls \<and> ensure_single_blank_between_items ls = ls"
    if ind: "list_all (\<lambda>l. l \<noteq> [] \<and> isspace (hd l)) ls"
  proof -
    have a: "list_all (\<lambda>l. \<not> is_use_or_mod l) ls"
      using ind cls by (auto simp: list_all_iff)
    have b: "list_all (\<lambda>l. \<not> re_match item_start_re l \<and> \<not> re_match use_mod_re l) ls"
      using ind cls by (auto simp: list_all_iff)
    have nb: "case ls of [] \<Rightarrow> True | l # x \<Rightarrow> is_use_or_mod l \<longrightarrow> [] = [] \<or> strip (last []) = []"
      by (cases ls) simp_all
    have "group_loop [] ls = [] @ ls"
      using imports_grouped_none[OF a] nb by (rule group_loop_id)
    moreover have "ensure_loop [] ls = [] @ ls"
      using items_separated_none[OF b] by (rule ensure_loop_id)
    ultimately show ?thesis
      by (simp add: group_import_blocks_def ensure_single_blank_between_items_def)
  qed
  show ?thesis using cls pass by blast
qed

theorem leading_whitespace_line_not_classified_witness:
  "\<not> re_match use_mod_re ''    use a::b;\<newline>'' \<and> \<not> is_use_or_mod ''    use a::b;\<newline>'' \<and>
   group_import_blocks [''    let x = 1;\<newline>'', ''    use a::b;\<newline>'', ''    fn f() {}\<newline>'']
     = [''    let x = 1;\<newline>'', ''    use a::b;\<newline>'', ''    fn f() {}\<newline>''] \<and>
   ensure_single_blank_between_items [''    let x = 1;\<newline>'', ''    use a::b;\<newline>'', ''    fn f() {}\<newline>'']
     = [''    let x = 1;\<newline>'', ''    use a::b;\<newline>'', ''    fn f() {}\<newline>'']"
proof -
  note k = leading_whitespace_line_not_classified
      [of "''    use a::b;\<newline>''" "[''    let x = 1;\<newline>'', ''    use a::b;\<newline>'', ''    fn f() {}\<newline>'']"]
  have h1: "''    use a::b;\<newline>'' \<noteq> [] \<and> isspace (hd ''    use a::b;\<newline>'')"
    by (simp add: isspace_def)
  have h2: "list_all (\<lambda>l. l \<noteq> [] \<and> isspace (hd l))
              [''    let x = 1;\<newline>'', ''    use a::b;\<newline>'', ''    fn f() {}\<newline>'']"
    by (simp add: isspace_def)
  show ?thesis using mp[OF conjunct1[OF k] h1] mp[OF conjunct2[OF k] h2] by blast
qed

theorem indented_use_classified_differently_counterexample:
  "strip ''    use a::b;\<newline>'' = strip ''use a::b;\<newline>'' \<and>
   re_match use_mod_re ''use a::b;\<newline>'' \<and> \<not> re_match use_mod_re ''    use a::b;\<newline>'' \<and>
   is_use_or_mod ''use a::b;\<newline>'' \<and> \<not> is_use_or_mod ''    use a::b;\<newline>'' \<and>
   strip ''    fn f() {}\<newline>'' = strip ''fn f() {}\<newline>'' \<and>
   re_match item_start_re ''fn f() {}\<newline>'' \<and> \<not> re_match item_start_re ''    fn f() {}\<newline>'' \<and>
   ensure_single_blank_between_items [''let x = 1;\<newline>'', ''use a::b;\<newline>'']
     = [''let x = 1;\<newline>'', ''\<newline>'', ''use a::b;\<newline>''] \<and>
   ensure_single_blank_between_items [''let x = 1;\<newline>'', ''    use a::b;\<newline>'']
     = [''let x = 1;\<newline>'', ''    use a::b;\<newline>'']"
  by code_simp

subsection \<open>The batch run\<close>

lemma process_file_file_of_other:
  assumes "process_file fs p = Inr (b, fs')" and "q \<noteq> p"
  shows "read_text fs' q = read_text fs q \<and> write_error fs' q = write_error fs q"
  using assms
  by (auto simp: process_file_def read_text_def write_text_def
      split: sum.splits option.splits if_splits)

lemma process_file_depends:
  assumes "read_text fs' q = read_text fs q" and "write_error fs' q = write_error fs q"
  shows "warning_of fs' q = warning_of fs q \<and> counts_as_changed fs' q = counts_as_changed fs q"
  using assms
  by (auto simp: warning_of_def counts_as_changed_def process_file_def write_text_def
      split: sum.splits option.splits if_splits exn.splits)

lemma outcome_of_other:
  assumes "process_file fs p = Inr (b, fs')" and "q \<noteq> p"
  shows "warning_of fs' q = warning_of fs q" and "counts_as_changed fs' q = counts_as_changed fs q"
  using process_file_depends process_file_file_of_other[OF assms] by blast+

lemma map_filter_cong_set:
  "(\<And>x. x \<in> set xs \<Longrightarrow> f x = g x) \<Longrightarrow> List.map_filter f xs = List.map_filter g xs"
proof (induction xs)
  case Nil
  show ?case by simp
next
  case (Cons a xs)
  have a: "f a = g a" using Cons.prems by simp
  have r: "List.map_filter f xs = List.map_filter g xs" using Cons by simp
  show ?case by (simp add: a r split: option.splits)
qed

lemma main_loop_outcome:
  "distinct ps \<Longrightarrow>
   stderr (main_loop st ps) = stderr st @ List.map_filter (warning_of (files st)) ps \<and>
   changed (main_loop st ps)
     = changed st + int (length (filter (counts_as_changed (files st)) ps))"
proof (induction ps arbitrary: st)
  case Nil
  show ?case by simp
next
  case (Cons p ps)
  have d: "distinct ps" and notin: "p \<notin> set ps" using Cons.prems by simp_all
  show ?case
  proof (cases "process_file (files st) p")
    case (Inl e)
    obtain msg where e: "e = Exception msg" by (cases e)
    let ?st = "st\<lparr>stderr := stderr st @ [warning_line p msg]\<rparr>"
    have step: "main_loop st (p # ps) = main_loop ?st ps" using Inl e by simp
    have w: "warning_of (files st) p = Some (warning_line p msg)"
      and c: "\<not> counts_as_changed (files st) p"
      using Inl e by (simp_all add: warning_of_def counts_as_changed_def)
    show ?thesis
      unfolding step using Cons.IH[OF d, of ?st] w c by simp
  next
    case (Inr r)
    obtain b fs' where r: "r = (b, fs')" by (cases r)
    let ?st = "if b then st\<lparr>changed := changed st + 1, files := fs'\<rparr> else st\<lparr>files := fs'\<rparr>"
    have step: "main_loop st (p # ps) = main_loop ?st ps" using Inr r by simp
    have w: "warning_of (files st) p = None"
      and c: "counts_as_changed (files st) p = b"
      using Inr r by (simp_all add: warning_of_def counts_as_changed_def)
    have ne: "q \<noteq> p" if "q \<in> set ps" for q using that notin by auto
    have pf: "process_file (files st) p = Inr (b, fs')" using Inr r by simp
    have other: "\<And>q. q \<in> set ps \<Longrightarrow> warning_of fs' q = warning_of (files st) q"
      "\<And>q. q \<in> set ps \<Longrightarrow> counts_as_changed fs' q = counts_as_changed (files st) q"
      using outcome_of_other[OF pf ne] by simp_all
    have m: "List.map_filter (warning_of fs') ps = List.map_filter (warning_of (files st)) ps"
      using other(1) by (rule map_filter_cong_set)
    have f: "filter (counts_as_changed fs') ps = filter (counts_as_changed (files st)) ps"
      using other(2) by (auto intro: filter_cong)
    have fs: "files ?st = fs'" by simp
    have "stderr (main_loop ?st ps) = stderr ?st @ List.map_filter (warning_of fs') ps \<and>
          changed (main_loop ?st ps) = changed ?st + int (length (filter (counts_as_changed fs') ps))"
      using Cons.IH[OF d, of ?st] unfolding fs .
    then show ?thesis
      unfolding step m f using w c by simp
  qed
qed

text \<open>
  Claim C9 (a failing file does not abort the batch). For a batch of distinct paths, the
  lines on the error stream are exactly the warnings of the files whose processing
  raises, in order, each made of the path and the message of the exception; every other
  file is processed as if it were alone, and the final count is the number of files that
  were processed without exception and written.
\<close>

theorem failing_file_does_not_abort_batch:
  "distinct ps \<Longrightarrow>
   stderr (fst (main fs ps)) = List.map_filter (warning_of fs) ps \<and>
   changed (fst (main fs ps)) = int (length (filter (counts_as_changed fs) ps)) \<and>
   snd (main fs ps)
     = ''Files changed: '' @ str_int (int (length (filter (counts_as_changed fs) ps))) \<and>
   (\<forall>p msg. p \<in> set ps \<and> process_file fs p = Inl (Exception msg) \<longrightarrow>
      ''Warning: failed to process '' @ p @ '': '' @ msg \<in> set (stderr (fst (main fs ps))))"
proof -
  assume d: "distinct ps"
  let ?st = "\<lparr>changed = 0, stderr = [], files = fs\<rparr>"
  have o: "stderr (main_loop ?st ps) = List.map_filter (warning_of fs) ps"
    "changed (main_loop ?st ps) = int (length (filter (counts_as_changed fs) ps))"
    using main_loop_outcome[OF d, of ?st] by simp_all
  have w: "''Warning: failed to process '' @ p @ '': '' @ msg \<in> set (List.map_filter (warning_of fs) ps)"
    if "p \<in> set ps" and "process_file fs p = Inl (Exception msg)" for p msg
  proof -
    have "warning_of fs p = Some (''Warning: failed to process '' @ p @ '': '' @ msg)"
      using that(2) by (simp add: warning_of_def warning_line_def)
    then show ?thesis using that(1) by (force simp: List.map_filter_def)
  qed
  show ?thesis using o w by (simp add: main_def Let_def)
qed

theorem failing_file_does_not_abort_batch_witness:
  "stderr (fst (main
      \<lparr>read_result = (\<lambda>p. if p = ''b.rs'' then Inl (Exception ''permission denied'')
                           else if p = ''c.rs'' then Inr ''fn f() {}\<newline>''
                           else Inr ''use a;\<newline>fn f() {}\<newline>''),
       write_error = (\<lambda>p. if p = ''d.rs'' then Some (Exception ''read-only file'') else None)\<rparr>
      [''a.rs'', ''b.rs'', ''c.rs'', ''d.rs'']))
     = [''Warning: failed to process b.rs: permission denied'',
        ''Warning: failed to process d.rs: read-only file''] \<and>
   snd (main
      \<lparr>read_result = (\<lambda>p. if p = ''b.rs'' then Inl (Exception ''permission denied'')
                           else if p = ''c.rs'' then Inr ''fn f() {}\<newline>''
                           else Inr ''use a;\<newline>fn f() {}\<newline>''),
       write_error = (\<lambda>p. if p = ''d.rs'' then Some (Exception ''read-only file'') else None)\<rparr>
      [''a.rs'', ''b.rs'', ''c.rs'', ''d.rs''])
     = ''Files changed: 1''"
proof -
  let ?fs = "\<lparr>read_result = (\<lambda>p. if p = ''b.rs'' then Inl (Exception ''permission denied'')
                           else if p = ''c.rs'' then Inr ''fn f() {}\<newline>''
                           else Inr ''use a;\<newline>fn f() {}\<newline>''),
       write_error = (\<lambda>p. if p = ''d.rs'' then Some (Exception ''read-only file'') else None)\<rparr>"
  let ?ps = "[''a.rs'', ''b.rs'', ''c.rs'', ''d.rs'']"
  have d: "distinct ?ps" by simp
  have w: "List.map_filter (warning_of ?fs) ?ps
             = [''Warning: failed to process b.rs: permission denied'',
                ''Warning: failed to process d.rs: read-only file'']"
    by code_simp
  have c: "filter (counts_as_changed ?fs) ?ps = [''a.rs'']"
    by code_simp
  have n: "str_int 1 = ''1''"
    by code_simp
  show ?thesis
    using failing_file_does_not_abort_batch[OF d, of ?fs] unfolding w c by (simp add: n)
qed

section \<open>Behaviour at concrete inputs\<close>

text \<open>
  Claim C1 (idempotence of the pipeline). The claim says that running the pipeline on its
  own output changes nothing. On the five-line function below the first run puts one
  blank line after the inner closing brace and the second run puts a second one there:
  the closing-brace rule of \<^verbatim>\<open>inside_fn_blank_lines\<close> looks past the blank lines that
  already follow the brace and appends another one.
\<close>

theorem pipeline_second_run_differs:
  "new_txt ''fn f() {\<newline>    if a {\<newline>    }\<newline>    b();\<newline>}\<newline>''
     = ''fn f() {\<newline>    if a {\<newline>    }\<newline>\<newline>    b();\<newline>}\<newline>'' \<and>
   new_txt (new_txt ''fn f() {\<newline>    if a {\<newline>    }\<newline>    b();\<newline>}\<newline>'')
     = ''fn f() {\<newline>    if a {\<newline>    }\<newline>\<newline>\<newline>    b();\<newline>}\<newline>''"
  by code_simp

text \<open>
  Claim C5 (phase boundary between \<^verbatim>\<open>app.init_resource::<Foo>();\<close> and
  \<^verbatim>\<open>app.configure_sets(Update, MySet);\<close>). The claim says the pipeline puts exactly one
  blank line between the two lines. \<^verbatim>\<open>is_resource_line\<close> looks for \<^verbatim>\<open>.init_resource(\<close>,
  which the turbofish form \<^verbatim>\<open>.init_resource::<Foo>(\<close> does not contain, so the first line
  is no resource line and the two lines come out adjacent.
\<close>

theorem init_resource_turbofish_not_separated:
  "\<not> is_resource_line ''app.init_resource::<Foo>();'' \<and>
   new_txt ''app.init_resource::<Foo>();\<newline>app.configure_sets(Update, MySet);\<newline>''
     = ''app.init_resource::<Foo>();\<newline>app.configure_sets(Update, MySet);\<newline>''"
  by code_simp

text \<open>
  Claim C6 (an attribute or doc line stays attached to the declaration that follows it).
  \<^verbatim>\<open>ensure_single_blank_between_items\<close> skips attribute and doc lines, but
  \<^verbatim>\<open>group_import_blocks\<close> has no such check: it separates \<^verbatim>\<open>#[cfg(test)]\<close> from the
  \<^verbatim>\<open>mod tests;\<close> it annotates.
\<close>

theorem attribute_split_from_mod:
  "startswith_any (strip ''#[cfg(test)]\<newline>'') [''#['', ''//!'', ''///''] \<and>
   re_match use_mod_re ''mod tests;\<newline>'' \<and>
   group_import_blocks [''#[cfg(test)]\<newline>'', ''mod tests;\<newline>'']
     = [''#[cfg(test)]\<newline>'', ''\<newline>'', ''mod tests;\<newline>''] \<and>
   new_txt ''#[cfg(test)]\<newline>mod tests;\<newline>'' = ''#[cfg(test)]\<newline>\<newline>mod tests;\<newline>''"
  by code_simp

text \<open>
  Claim C7 (a control-flow starter needs a space or an opening delimiter after the
  keyword). Six of the seven prefixes that \<^verbatim>\<open>inside_fn_blank_lines\<close> tests end in a space
  or a parenthesis; \<^verbatim>\<open>"loop"\<close> does not, so the assignment \<^verbatim>\<open>loop_count = 0;\<close> counts as
  a control-flow starter and gets a blank line before it inside a block.
\<close>

theorem loop_prefix_is_control_start:
  "starts_control ''loop_count = 0;'' \<and>
   new_txt ''fn f() {\<newline>    let a = 1;\<newline>    loop_count = 0;\<newline>}\<newline>''
     = ''fn f() {\<newline>    let a = 1;\<newline>\<newline>    loop_count = 0;\<newline>}\<newline>''"
  by code_simp

end
